theory Spec2Isabelle
  imports Complex_Main "HOL-Library.AList" "HOL-Library.Char_ord" "HOL-Library.List_Lexorder"
    "HOL-Library.Product_Lexorder"
begin

section \<open>HomepageComponent.isDiscounted (src/app/homepage/homepage.component.ts)\<close>

text \<open>
  A TypeScript \<open>number\<close> is an IEEE double. The function below only tests a number for
  truthiness and compares two numbers with \<open>>\<close>, and both operations depend on the
  value a double denotes only: a finite double is modelled by the rational it denotes
  (the two zeros are both \<open>Finite 0\<close>: they are equally falsy and compare alike), and
  the three special values are constructors of their own.
\<close>

datatype number = Finite rat | PosInf | NegInf | NaN

text \<open>The type \<open>Product\<close>; an optional field (\<open>originalPrice?\<close>, \<open>badge?\<close>) is an option,
  \<open>None\<close> for \<open>undefined\<close>.\<close>

record Product =
  id_field :: number
  name :: string
  price :: number
  originalPrice :: "number option"
  rating :: number
  reviews :: number
  tag :: string
  category :: string
  description :: string
  swatches :: "string list"
  gradient :: string
  badge :: "string option"

text \<open>ToBoolean on \<open>number | undefined\<close>: \<open>undefined\<close>, \<open>NaN\<close>, \<open>+0\<close> and \<open>-0\<close> are falsy.\<close>

fun to_boolean :: "number option \<Rightarrow> bool" where
  "to_boolean None = False"
| "to_boolean (Some NaN) = False"
| "to_boolean (Some (Finite q)) = (q \<noteq> 0)"
| "to_boolean (Some PosInf) = True"
| "to_boolean (Some NegInf) = True"

text \<open>ToNumber on \<open>number | undefined\<close>: \<open>undefined\<close> becomes \<open>NaN\<close>.\<close>

fun to_number :: "number option \<Rightarrow> number" where
  "to_number None = NaN"
| "to_number (Some v) = v"

text \<open>The operator \<open>a > b\<close> on doubles: false as soon as one side is \<open>NaN\<close>.\<close>

fun greater_than :: "number \<Rightarrow> number \<Rightarrow> bool" where
  "greater_than NaN b = False"
| "greater_than a NaN = False"
| "greater_than (Finite a) (Finite b) = (b < a)"
| "greater_than (Finite a) PosInf = False"
| "greater_than (Finite a) NegInf = True"
| "greater_than PosInf (Finite b) = True"
| "greater_than PosInf PosInf = False"
| "greater_than PosInf NegInf = True"
| "greater_than NegInf b = False"

text \<open>
  \<^verbatim>\<open>isDiscounted(p: Product): boolean {
    return !!p.originalPrice && p.originalPrice > p.price;
  }\<close>
  The left operand \<open>!!p.originalPrice\<close> is a boolean, so \<open>&&\<close> is conjunction, and the
  right operand is read only when the left one is true.
\<close>

definition isDiscounted :: "Product \<Rightarrow> bool" where
  "isDiscounted p =
     (if to_boolean (originalPrice p)
      then greater_than (to_number (originalPrice p)) (price p)
      else False)"

text \<open>The first product of the component's catalogue (\<open>products[0]\<close>).\<close>

definition lumen :: Product where
  "lumen = \<lparr> id_field = Finite 1, name = ''Lumen Knit Sneakers'', price = Finite 128,
     originalPrice = Some (Finite 160), rating = Finite (48 / 10), reviews = Finite 312,
     tag = ''Best Seller'', category = ''Everyday'',
     description = ''Breathable knit with a cloudfoam core.'',
     swatches = [''#f4b4a5'', ''#b7d8e3'', ''#233345''],
     gradient = ''linear-gradient(135deg, #f4b4a5, #f6e0d6)'',
     badge = Some ''20% off'' \<rparr>"

section \<open>The placeholder scaffolding tool (tools/ensure-specs-for-ts.mjs)\<close>

subsection \<open>Paths\<close>

text \<open>
  Paths are the POSIX paths \<open>glob\<close> returns: relative to the working directory, with
  \<open>/\<close> between segments and no trailing slash. \<open>split_on\<close> and \<open>join_with\<close> are
  \<open>String.prototype.split\<close> and \<open>Array.prototype.join\<close> for a one-character separator.
\<close>

fun split_on :: "char \<Rightarrow> string \<Rightarrow> string list" where
  "split_on c [] = [[]]"
| "split_on c (x # xs) =
     (if x = c then [] # split_on c xs
      else (case split_on c xs of [] \<Rightarrow> [[x]] | s # ss \<Rightarrow> (x # s) # ss))"

fun join_with :: "char \<Rightarrow> string list \<Rightarrow> string" where
  "join_with c [] = []"
| "join_with c [s] = s"
| "join_with c (s # t # ts) = s @ c # join_with c (t # ts)"

definition segments :: "string \<Rightarrow> string list" where
  "segments p = split_on CHR ''/'' p"

text \<open>\<open>s.endsWith(suf)\<close>.\<close>

definition ends_with :: "string \<Rightarrow> string \<Rightarrow> bool" where
  "ends_with suf s = (length suf \<le> length s \<and> drop (length s - length suf) s = suf)"

subsection \<open>The glob patterns\<close>

text \<open>
  \<open>globSync\<close> and its pattern matcher belong to the npm package \<open>glob\<close>, not to this
  repository. The patterns of the tool use two of its operators only: \<open>*\<close>, any run of
  characters inside one path segment, and \<open>**\<close>, any run of whole segments (none
  included). The matcher below implements these two, on segments, with glob's \<open>dot\<close>
  option: without it a segment that starts with a dot is matched only by a pattern segment
  that starts with a dot, and \<open>**\<close> steps over no such segment. Matching is case
  sensitive, as it is on Linux.
\<close>

fun wild :: "string \<Rightarrow> string \<Rightarrow> bool" where
  "wild [] s = (s = [])"
| "wild (c # p) s =
     (if c = CHR ''*''
      then (wild p s \<or> (case s of [] \<Rightarrow> False | _ # s' \<Rightarrow> wild (c # p) s'))
      else (case s of [] \<Rightarrow> False | d # s' \<Rightarrow> c = d \<and> wild p s'))"

definition hidden :: "string \<Rightarrow> bool" where
  "hidden s = (case s of [] \<Rightarrow> False | c # _ \<Rightarrow> c = CHR ''.'')"

definition seg_match :: "bool \<Rightarrow> string \<Rightarrow> string \<Rightarrow> bool" where
  "seg_match dot p s = (if hidden s \<and> \<not> dot then hidden p \<and> wild p s else wild p s)"

fun glob_match :: "bool \<Rightarrow> string list \<Rightarrow> string list \<Rightarrow> bool" where
  "glob_match dot [] segs = (segs = [])"
| "glob_match dot (p # ps) segs =
     (if p = ''**''
      then (glob_match dot ps segs \<or>
            (case segs of [] \<Rightarrow> False
             | s # ss \<Rightarrow> (dot \<or> \<not> hidden s) \<and> glob_match dot (p # ps) ss))
      else (case segs of [] \<Rightarrow> False | s # ss \<Rightarrow> seg_match dot p s \<and> glob_match dot ps ss))"

definition minimatch :: "bool \<Rightarrow> string \<Rightarrow> string \<Rightarrow> bool" where
  "minimatch dot pattern path = glob_match dot (segments pattern) (segments path)"

text \<open>
  \<^verbatim>\<open>const TS_GLOB = "src/**/*.ts";
  const IGNORE = [ "**/*.spec.ts", "**/*.d.ts", ... , "**/*.module.ts" ];\<close>
\<close>

definition TS_GLOB :: string where
  "TS_GLOB = ''src/**/*.ts''"

definition IGNORE :: "string list" where
  "IGNORE = [''**/*.spec.ts'', ''**/*.d.ts'', ''**/node_modules/**'', ''**/dist/**'',
     ''**/coverage/**'', ''**/main.ts'', ''**/polyfills.ts'', ''**/test.ts'',
     ''**/environment*.ts'', ''**/*.routes.ts'', ''**/*.config.ts'', ''**/*.module.ts'']"

text \<open>glob matches its \<open>ignore\<close> patterns with \<open>dot: true\<close>, whatever the other options.\<close>

definition ignored :: "string \<Rightarrow> bool" where
  "ignored path = list_ex (\<lambda>pattern. minimatch True pattern path) IGNORE"

subsection \<open>The file system\<close>

text \<open>
  The disk is the list of the entries under the working directory, each a path with a
  file's content or the mark of a directory, in the order a directory walk meets them;
  \<open>map_of\<close> looks a path up. The calls of \<open>node:fs\<close> the tool makes are functions on
  it; one that throws returns the disk as it stands with the error. (Errors of the
  environment, a read-only disk or a full one, are outside the model.)
\<close>

datatype entry = File string | Dir

type_synonym filesystem = "(string \<times> entry) list"

datatype fs_error = EEXIST | ENOTDIR | EISDIR | ENOENT

text \<open>
  \<^verbatim>\<open>const files = globSync(TS_GLOB, { ignore: IGNORE });\<close>
  Every entry of the tree, file or directory, whose path matches \<open>TS_GLOB\<close> and none of
  the \<open>IGNORE\<close> patterns, in walk order.
\<close>

definition globSync :: "filesystem \<Rightarrow> string list" where
  "globSync disk = filter (\<lambda>path. minimatch False TS_GLOB path \<and> \<not> ignored path) (map fst disk)"

definition existsSync :: "filesystem \<Rightarrow> string \<Rightarrow> bool" where
  "existsSync disk p = (map_of disk p \<noteq> None)"

text \<open>\<open>path.dirname\<close>: the path without its last segment; \<open>.\<close> for a path of one segment.\<close>

definition dirname :: "string \<Rightarrow> string" where
  "dirname p =
     (let segs = segments p in
      if length segs \<le> 1 then ''.''
      else (let d = join_with CHR ''/'' (butlast segs) in if d = [] then ''/'' else d))"

text \<open>
  \<open>mkdirSync(d, { recursive: true })\<close> walks down the directories on the way to \<open>d\<close>,
  creating those that are missing; a file in the way makes it throw.
\<close>

definition ancestors :: "string \<Rightarrow> string list" where
  "ancestors d =
     (if d = ''.'' \<or> d = ''/'' then []
      else filter (\<lambda>a. a \<noteq> [])
             (map (\<lambda>n. join_with CHR ''/'' (take n (segments d))) [1..<Suc (length (segments d))]))"

fun mkdirs :: "string list \<Rightarrow> filesystem \<Rightarrow> filesystem \<times> fs_error option" where
  "mkdirs [] disk = (disk, None)"
| "mkdirs (d # ds) disk =
     (case map_of disk d of
        None \<Rightarrow> mkdirs ds (AList.update d Dir disk)
      | Some Dir \<Rightarrow> mkdirs ds disk
      | Some (File _) \<Rightarrow> (disk, Some (if ds = [] then EEXIST else ENOTDIR)))"

definition mkdirSync :: "string \<Rightarrow> filesystem \<Rightarrow> filesystem \<times> fs_error option" where
  "mkdirSync d disk = mkdirs (ancestors d) disk"

text \<open>
  \<open>writeFileSync(p, data, "utf-8")\<close> creates or overwrites the file \<open>p\<close>; it throws when
  \<open>p\<close> is a directory or when the directory of \<open>p\<close> is missing.
\<close>

definition writeFileSync :: "string \<Rightarrow> string \<Rightarrow> filesystem \<Rightarrow> filesystem \<times> fs_error option" where
  "writeFileSync p data disk =
     (case map_of disk p of
        Some Dir \<Rightarrow> (disk, Some EISDIR)
      | _ \<Rightarrow>
        (if dirname p = ''.'' \<or> dirname p = ''/'' then (AList.update p (File data) disk, None)
         else (case map_of disk (dirname p) of
                 None \<Rightarrow> (disk, Some ENOENT)
               | Some (File _) \<Rightarrow> (disk, Some ENOTDIR)
               | Some Dir \<Rightarrow> (AList.update p (File data) disk, None))))"

subsection \<open>The tool\<close>

text \<open>
  The state of the script: the disk, the counter \<open>created\<close>, and the lines written by
  \<open>console.log\<close>.
\<close>

record tool_state =
  fs :: filesystem
  created :: nat
  console :: "string list"

text \<open>
  \<^verbatim>\<open>const spec = file.replace(/\.ts$/, ".spec.ts");\<close>
  The regular expression matches at the end of the string only, so a path that does not
  end in \<open>.ts\<close> is returned as it is.
\<close>

definition spec_path :: "string \<Rightarrow> string" where
  "spec_path file =
     (if ends_with ''.ts'' file then take (length file - 3) file @ ''.spec.ts'' else file)"

text \<open>The template literal \<^verbatim>\<open>`// Auto-created placeholder spec for ${file}\n`\<close>.\<close>

definition placeholder :: "string \<Rightarrow> string" where
  "placeholder file = ''// Auto-created placeholder spec for '' @ file @ [CHR 0x0A]"

text \<open>
  The body of the loop, for one \<open>file\<close>:
  \<^verbatim>\<open>const spec = file.replace(/\.ts$/, ".spec.ts");
  if (existsSync(spec)) continue;
  mkdirSync(dirname(spec), { recursive: true });
  writeFileSync(spec, `// Auto-created placeholder spec for ${file}\n`, "utf-8");
  console.log(`Created: ${spec}`);
  created++;\<close>
  An exception of \<open>mkdirSync\<close> or \<open>writeFileSync\<close> is not caught: it ends the script,
  and the result carries it with the state reached.
\<close>

definition loop_body :: "string \<Rightarrow> tool_state \<Rightarrow> tool_state \<times> fs_error option" where
  "loop_body file st =
     (let spec = spec_path file in
      if existsSync (fs st) spec then (st, None)
      else (case mkdirSync (dirname spec) (fs st) of
              (disk1, Some e) \<Rightarrow> (st\<lparr>fs := disk1\<rparr>, Some e)
            | (disk1, None) \<Rightarrow>
              (case writeFileSync spec (placeholder file) disk1 of
                 (disk2, Some e) \<Rightarrow> (st\<lparr>fs := disk2\<rparr>, Some e)
               | (disk2, None) \<Rightarrow>
                 (st\<lparr>fs := disk2, console := console st @ [''Created: '' @ spec],
                     created := created st + 1\<rparr>, None))))"

text \<open>\<^verbatim>\<open>for (const file of files) { ... }\<close>\<close>

fun for_files :: "string list \<Rightarrow> tool_state \<Rightarrow> tool_state \<times> fs_error option" where
  "for_files [] st = (st, None)"
| "for_files (file # rest) st =
     (case loop_body file st of
        (st1, Some e) \<Rightarrow> (st1, Some e)
      | (st1, None) \<Rightarrow> for_files rest st1)"

text \<open>A number inside a template literal is printed in decimal.\<close>

fun decimal :: "nat \<Rightarrow> string" where
  "decimal n = (if n < 10 then [char_of (48 + n)] else decimal (n div 10) @ [char_of (48 + n mod 10)])"

text \<open>
  Reading a decimal numeral back: the number a non-empty string of digits denotes. It is
  what the reader of the report does with the printed count.
\<close>

definition is_digit :: "char \<Rightarrow> bool" where
  "is_digit c = (48 \<le> (of_char c :: nat) \<and> (of_char c :: nat) \<le> 57)"

definition read_decimal :: "string \<Rightarrow> nat option" where
  "read_decimal s =
     (if s \<noteq> [] \<and> list_all is_digit s
      then Some (foldl (\<lambda>a c. 10 * a + (of_char c - 48)) 0 s) else None)"

text \<open>The template literal \<^verbatim>\<open>`\nDone. Created ${created} missing spec files.`\<close>.\<close>

definition done_line :: "nat \<Rightarrow> string" where
  "done_line n = CHR 0x0A # ''Done. Created '' @ decimal n @ '' missing spec files.''"

text \<open>
  The script: glob once, run the loop from \<open>created = 0\<close>, then report. The report is
  printed only if no exception ended the loop.
\<close>

definition main :: "filesystem \<Rightarrow> tool_state \<times> fs_error option" where
  "main disk =
     (case for_files (globSync disk) \<lparr>fs = disk, created = 0, console = []\<rparr> of
        (st, Some e) \<Rightarrow> (st, Some e)
      | (st, None) \<Rightarrow>
        (st\<lparr>console := console st @ [done_line (created st)]\<rparr>, None))"

text \<open>
  A small project tree to run the tool on: a matched source file without a spec
  (\<open>homepage.component.ts\<close>), one with a hand-written spec (\<open>app.ts\<close>), files the
  \<open>IGNORE\<close> list excludes, and a file in a dot directory, which \<open>TS_GLOB\<close> does not reach.
\<close>

definition project :: filesystem where
  "project = [(''src'', Dir), (''src/main.ts'', File ''bootstrap''),
     (''src/app'', Dir), (''src/app/app.ts'', File ''app''),
     (''src/app/app.spec.ts'', File ''hand-written''),
     (''src/app/homepage'', Dir),
     (''src/app/homepage/homepage.component.ts'', File ''component''),
     (''src/app/.cache'', Dir), (''src/app/.cache/x.ts'', File ''x''),
     (''src/app/app.routes.ts'', File ''routes''),
     (''src/environments'', Dir), (''src/environments/environment.prod.ts'', File ''env''),
     (''README.md'', File ''readme'')]"

text \<open>The paths that hold a file in \<open>m'\<close> and held nothing in \<open>m\<close>.\<close>

definition new_files :: "(string \<rightharpoonup> entry) \<Rightarrow> (string \<rightharpoonup> entry) \<Rightarrow> string set" where
  "new_files m m' = {p. m p = None \<and> (\<exists>c. m' p = Some (File c))}"

subsection \<open>Well-formed trees\<close>

text \<open>
  A tree is well formed when, for every entry, the directory of the entry and every
  directory above it are on the disk as directories: what a directory walk of a real disk
  yields.
\<close>

definition tree_ok :: "filesystem \<Rightarrow> bool" where
  "tree_ok disk =
     list_all (\<lambda>p. list_all (\<lambda>d. map_of disk d = Some Dir) (ancestors (dirname p)))
       (map fst disk)"

text \<open>\<open>p.endsWith(".spec.ts")\<close>\<close>

definition is_spec :: "string \<Rightarrow> bool" where
  "is_spec p = ends_with ''.spec.ts'' p"

section \<open>The Deficiency Selector (specification, sections 3 and 4.2)\<close>

text \<open>
  The selector belongs to the synthesis loop, \<open>tools/ai_testgen.py\<close>, which the README
  names and which is not among the sources. This section models it from the
  specification. Percentages are exact rationals.
\<close>

text \<open>
  Modelled from the spec: the CoverageRecord of \<open>tools/ai_testgen.py\<close>. "CoverageRecord:
  {file path, lines covered, lines total, branches covered, branches total}", the counts
  non-negative integers.
\<close>

record CoverageRecord =
  file_path :: string
  lines_covered :: nat
  lines_total :: nat
  branches_covered :: nat
  branches_total :: nat

text \<open>
  Modelled from the spec: the CoverageReport, a "mapping from file path to
  CoverageRecord, one entry per source file": the list of its records, in the order the
  mapping enumerates them, no two with the same file path.
\<close>

type_synonym CoverageReport = "CoverageRecord list"

text \<open>
  Modelled from the spec: the derived metric, "\<open>line_pct = lines_covered/lines_total*100\<close>
  (0 when \<open>lines_total = 0\<close>...)", as a function of the two counts.
\<close>

definition pct :: "nat \<Rightarrow> nat \<Rightarrow> rat" where
  "pct c n = (if n = 0 then 0 else of_nat c / of_nat n * 100)"

text \<open>Modelled from the spec: \<open>line_pct\<close>, the percentage of the lines covered.\<close>

definition line_pct :: "CoverageRecord \<Rightarrow> rat" where
  "line_pct r = pct (lines_covered r) (lines_total r)"

text \<open>
  Modelled from the spec: \<open>branch_pct\<close>, the percentage of the branches covered; the spec
  names it and gives no formula of its own for it.
\<close>

definition branch_pct :: "CoverageRecord \<Rightarrow> rat" where
  "branch_pct r = pct (branches_covered r) (branches_total r)"

text \<open>Modelled from the spec: "\<open>line_pct < threshold\<close> OR \<open>branch_pct < threshold\<close>".\<close>

definition below_threshold :: "rat \<Rightarrow> CoverageRecord \<Rightarrow> bool" where
  "below_threshold T r = (line_pct r < T \<or> branch_pct r < T)"

text \<open>
  Modelled from the spec: which records of the report qualify. A record with
  \<open>lines_total = 0\<close> is "treated as fully covered/excluded" and "never flagged as
  deficient"; any other record qualifies when it is below the threshold.
\<close>

definition deficient :: "rat \<Rightarrow> CoverageRecord \<Rightarrow> bool" where
  "deficient T r = (lines_total r \<noteq> 0 \<and> below_threshold T r)"

text \<open>
  Modelled from the spec: "Files absent from the report entirely ... are synthesized as
  Deficiency with 0% coverage". The files of the project are the list \<open>sources\<close>.
\<close>

definition synthesize :: "string \<Rightarrow> CoverageRecord" where
  "synthesize p = \<lparr>file_path = p, lines_covered = 0, lines_total = 0,
     branches_covered = 0, branches_total = 0\<rparr>"

text \<open>
  Modelled from the spec: the "files absent from the report entirely", each once, in the
  order of \<open>sources\<close>.
\<close>

definition absent :: "string list \<Rightarrow> CoverageReport \<Rightarrow> string list" where
  "absent sources R = remdups (filter (\<lambda>p. p \<notin> set (map file_path R)) sources)"

text \<open>
  Modelled from the spec: the order of the work queue, "by ascending coverage percentage,
  path as tiebreak". The coverage percentage of an entry is its \<open>line_pct\<close>, the one
  percentage the data model defines; paths are compared as strings, character by
  character.
\<close>

definition rank :: "CoverageRecord \<Rightarrow> rat \<times> string" where
  "rank r = (line_pct r, file_path r)"

text \<open>
  Modelled from the spec: the Deficiency Selector, "given a CoverageReport and a
  configured minimum percentage threshold ..., return an ordered sequence of Deficiency
  entries": the qualifying records and the synthesized ones, sorted (by a stable sort).
  The whole sequence is returned; its length tells the caller the total size.
\<close>

definition select :: "string list \<Rightarrow> CoverageReport \<Rightarrow> rat \<Rightarrow> CoverageRecord list" where
  "select sources R T = sort_key rank (filter (deficient T) R @ map synthesize (absent sources R))"

text \<open>
  A report to run the selector on: \<open>foo.ts\<close> at 40% of its lines (scenario A of the
  specification), a file above the threshold, and a file with no lines. \<open>bar.ts\<close> is
  a source file the report does not mention (scenario B).
\<close>

definition foo :: CoverageRecord where
  "foo = \<lparr>file_path = ''src/foo.ts'', lines_covered = 4, lines_total = 10,
     branches_covered = 2, branches_total = 2\<rparr>"

definition empty_rec :: CoverageRecord where
  "empty_rec = \<lparr>file_path = ''src/empty.ts'', lines_covered = 0, lines_total = 0,
     branches_covered = 0, branches_total = 0\<rparr>"

definition good :: CoverageRecord where
  "good = \<lparr>file_path = ''src/good.ts'', lines_covered = 19, lines_total = 20,
     branches_covered = 9, branches_total = 10\<rparr>"

definition report :: CoverageReport where
  "report = [good, foo, empty_rec]"

definition source_files :: "string list" where
  "source_files = [''src/foo.ts'', ''src/bar.ts'', ''src/good.ts'', ''src/empty.ts'']"

text \<open>Modelled from the spec: the entries of the work queue before they are ordered.\<close>

definition candidates :: "string list \<Rightarrow> CoverageReport \<Rightarrow> rat \<Rightarrow> CoverageRecord list" where
  "candidates sources R T = filter (deficient T) R @ map synthesize (absent sources R)"

section \<open>Properties of isDiscounted\<close>

lemma greater_than_irrefl: "greater_than v v = False"
  by (cases v) simp_all

lemma to_boolean_Some: "to_boolean (Some v) = (v \<noteq> Finite 0 \<and> v \<noteq> NaN)"
  by (cases v) simp_all

lemma greater_than_not_NaN: "greater_than v w \<Longrightarrow> v \<noteq> NaN"
  by (cases v) simp_all

text \<open>
  Claim C10. For every product \<open>p\<close>, \<open>isDiscounted p\<close> is true exactly when
  \<open>p.originalPrice\<close> is defined, is not zero and is strictly greater than \<open>p.price\<close>.
  In particular it is false when \<open>originalPrice\<close> is \<open>undefined\<close>, when it is \<open>0\<close>, and
  when it equals \<open>price\<close>.
\<close>

theorem isDiscounted_iff:
  "isDiscounted p =
     (\<exists>v. originalPrice p = Some v \<and> v \<noteq> Finite 0 \<and> greater_than v (price p))
   \<and> isDiscounted (p\<lparr>originalPrice := None\<rparr>) = False
   \<and> isDiscounted (p\<lparr>originalPrice := Some (Finite 0)\<rparr>) = False
   \<and> isDiscounted (p\<lparr>originalPrice := Some (price p)\<rparr>) = False"
proof -
  have main: "isDiscounted p =
     (\<exists>v. originalPrice p = Some v \<and> v \<noteq> Finite 0 \<and> greater_than v (price p))"
  proof (cases "originalPrice p")
    case None
    then show ?thesis by (simp add: isDiscounted_def)
  next
    case (Some v)
    then show ?thesis
      using greater_than_not_NaN [of v "price p"]
      by (auto simp add: isDiscounted_def to_boolean_Some)
  qed
  have undef: "isDiscounted (p\<lparr>originalPrice := None\<rparr>) = False"
    by (simp add: isDiscounted_def)
  have zero: "isDiscounted (p\<lparr>originalPrice := Some (Finite 0)\<rparr>) = False"
    by (simp add: isDiscounted_def)
  have same: "isDiscounted (p\<lparr>originalPrice := Some (price p)\<rparr>) = False"
    by (simp add: isDiscounted_def greater_than_irrefl)
  from main undef zero same show ?thesis by blast
qed

text \<open>
  The component's own tests, replayed on \<open>products[0]\<close> (price 128): an original price
  of 150 is a discount, \<open>undefined\<close> and 128 are not.
\<close>

theorem isDiscounted_iff_witness:
  "isDiscounted (lumen\<lparr>originalPrice := Some (Finite 150)\<rparr>) = True
   \<and> isDiscounted (lumen\<lparr>originalPrice := None\<rparr>) = False
   \<and> isDiscounted (lumen\<lparr>originalPrice := Some (Finite 128)\<rparr>) = False"
  using isDiscounted_iff [of "lumen\<lparr>originalPrice := Some (Finite 150)\<rparr>"]
    isDiscounted_iff [of lumen]
  by (simp add: lumen_def)

section \<open>Properties of the scaffolding tool\<close>

subsection \<open>Paths and patterns\<close>

lemma ends_with_iff: "ends_with suf s \<longleftrightarrow> (\<exists>stem. s = stem @ suf)"
proof
  assume "ends_with suf s"
  then have "s = take (length s - length suf) s @ suf"
    by (metis append_take_drop_id ends_with_def)
  then show "\<exists>stem. s = stem @ suf" ..
next
  assume "\<exists>stem. s = stem @ suf"
  then show "ends_with suf s" by (auto simp: ends_with_def)
qed

lemma spec_path_ts: "spec_path (stem @ ''.ts'') = stem @ ''.spec.ts''"
proof -
  have "ends_with ''.ts'' (stem @ ''.ts'')" by (simp add: ends_with_iff)
  then show ?thesis by (simp add: spec_path_def)
qed

lemma wild_Nil: "wild [] s = (s = [])"
  by simp

lemma wild_star:
  "wild (CHR ''*'' # p) s = (wild p s \<or> (\<exists>x s'. s = x # s' \<and> wild (CHR ''*'' # p) s'))"
  by (cases s) simp_all

lemma wild_lit: "c \<noteq> CHR ''*'' \<Longrightarrow> wild (c # p) s = (\<exists>s'. s = c # s' \<and> wild p s')"
  by (cases s) auto

lemma glob_match_Nil: "glob_match dot [] segs = (segs = [])"
  by simp

lemma glob_match_star:
  "glob_match dot (''**'' # ps) segs =
     (glob_match dot ps segs \<or>
      (\<exists>s ss. segs = s # ss \<and> (dot \<or> \<not> hidden s) \<and> glob_match dot (''**'' # ps) ss))"
  by (cases segs) simp_all

lemma glob_match_seg:
  "p \<noteq> ''**'' \<Longrightarrow>
   glob_match dot (p # ps) segs = (\<exists>s ss. segs = s # ss \<and> seg_match dot p s \<and> glob_match dot ps ss)"
  by (cases segs) simp_all

declare wild.simps [simp del] glob_match.simps [simp del]

lemma wild_dot_ts: "wild ''.ts'' s = (s = ''.ts'')"
  by (auto simp: wild_lit wild_Nil)

lemma wild_star_ts: "wild ''*.ts'' s \<Longrightarrow> \<exists>stem. s = stem @ ''.ts''"
proof (induction s)
  case Nil
  then show ?case using wild_star [of "''.ts''" "[]"] by (simp add: wild_dot_ts)
next
  case (Cons x s)
  from Cons.prems have "wild ''.ts'' (x # s) \<or> wild ''*.ts'' s"
    using wild_star [of "''.ts''" "x # s"] by simp
  then show ?case
  proof
    assume "wild ''.ts'' (x # s)"
    then have "x # s = [] @ ''.ts''" by (simp add: wild_dot_ts)
    then show ?thesis by blast
  next
    assume "wild ''*.ts'' s"
    then obtain stem where "s = stem @ ''.ts''" using Cons.IH by blast
    then have "x # s = (x # stem) @ ''.ts''" by simp
    then show ?thesis by blast
  qed
qed

lemma seg_match_wild: "seg_match dot p s \<Longrightarrow> wild p s"
  by (auto simp: seg_match_def split: if_splits)

lemma glob_match_last:
  "q \<noteq> ''**'' \<Longrightarrow> glob_match dot [''**'', q] segs \<Longrightarrow> segs \<noteq> [] \<and> seg_match dot q (last segs)"
proof (induction segs)
  case Nil
  then show ?case
    using glob_match_star [of dot "[q]" "[]"] by (simp add: glob_match_seg)
next
  case (Cons s ss)
  from Cons.prems(2) have "glob_match dot [q] (s # ss) \<or> glob_match dot [''**'', q] ss"
    using glob_match_star [of dot "[q]" "s # ss"] by auto
  then show ?case
  proof
    assume "glob_match dot [q] (s # ss)"
    then show ?thesis using Cons.prems(1) by (simp add: glob_match_seg glob_match_Nil)
  next
    assume "glob_match dot [''**'', q] ss"
    then have "ss \<noteq> [] \<and> seg_match dot q (last ss)" using Cons.IH Cons.prems(1) by blast
    then show ?thesis by simp
  qed
qed

lemma split_on_nonempty: "split_on c xs \<noteq> []"
  by (induction xs) (auto split: list.splits)

lemma join_split: "join_with c (split_on c xs) = xs"
proof (induction xs)
  case Nil
  then show ?case by simp
next
  case (Cons x xs)
  obtain s ss where sp: "split_on c xs = s # ss"
    using split_on_nonempty [of c xs] by (cases "split_on c xs") auto
  show ?case
  proof (cases "x = c")
    case True
    then show ?thesis using Cons.IH sp by simp
  next
    case False
    then show ?thesis using Cons.IH sp by (cases ss) simp_all
  qed
qed

lemma join_with_last: "ss \<noteq> [] \<Longrightarrow> \<exists>pre. join_with c ss = pre @ last ss"
proof (induction c ss rule: join_with.induct)
  case (3 c s t ts)
  then obtain pre where "join_with c (t # ts) = pre @ last (t # ts)" by auto
  then have "join_with c (s # t # ts) = (s @ c # pre) @ last (s # t # ts)" by simp
  then show ?case by blast
qed simp_all

lemma path_ends_with_last_segment: "\<exists>pre. path = pre @ last (segments path)"
  using join_with_last [OF split_on_nonempty, of "CHR ''/''" "CHR ''/''" path]
  by (simp add: join_split segments_def)

lemma matched_ends_ts:
  assumes "minimatch dot TS_GLOB path"
  shows "\<exists>stem. path = stem @ ''.ts''"
proof -
  have segs: "segments TS_GLOB = [''src'', ''**'', ''*.ts'']"
    by (simp add: segments_def TS_GLOB_def)
  from assms have "glob_match dot [''src'', ''**'', ''*.ts''] (segments path)"
    by (simp add: minimatch_def segs)
  then obtain s ss where sp: "segments path = s # ss" and g: "glob_match dot [''**'', ''*.ts''] ss"
    by (auto simp: glob_match_seg)
  from glob_match_last [OF _ g] have ne: "ss \<noteq> []" and "seg_match dot ''*.ts'' (last ss)" by simp_all
  then have "wild ''*.ts'' (last ss)" by (simp add: seg_match_wild)
  then obtain stem where stem: "last ss = stem @ ''.ts''" using wild_star_ts by blast
  have "last (segments path) = last ss" using sp ne by simp
  moreover obtain pre where "path = pre @ last (segments path)"
    using path_ends_with_last_segment by blast
  ultimately have "path = (pre @ stem) @ ''.ts''" using stem by simp
  then show ?thesis by blast
qed

lemma split_on_append:
  "c \<notin> set ys \<Longrightarrow>
   split_on c (xs @ ys) = butlast (split_on c xs) @ [last (split_on c xs) @ ys]"
proof (induction xs)
  case Nil
  have "split_on c ys = [ys]" using Nil by (induction ys) auto
  then show ?case by simp
next
  case (Cons x xs)
  obtain s ss where sp: "split_on c xs = s # ss"
    using split_on_nonempty [of c xs] by (cases "split_on c xs") auto
  show ?case
  proof (cases "x = c")
    case True
    then show ?thesis using Cons sp by simp
  next
    case False
    then show ?thesis using Cons sp by (cases ss) auto
  qed
qed

lemma segments_suffix:
  "CHR ''/'' \<notin> set suf \<Longrightarrow>
   segments (stem @ suf) = butlast (segments stem) @ [last (segments stem) @ suf]"
  by (simp add: segments_def split_on_append)

lemma wild_star_suffix:
  assumes "wild suf suf"
  shows "wild (CHR ''*'' # suf) (pre @ suf)"
proof (induction pre)
  case Nil
  then show ?case using assms wild_star [of suf suf] by simp
next
  case (Cons x pre)
  then show ?case using wild_star [of suf "(x # pre) @ suf"] by simp
qed

lemma glob_match_basename:
  assumes "q \<noteq> ''**''" and "segs \<noteq> []" and "seg_match True q (last segs)"
  shows "glob_match True [''**'', q] segs"
  using assms(2,3)
proof (induction segs)
  case Nil
  then show ?case by simp
next
  case (Cons s ss)
  show ?case
  proof (cases ss)
    case Nil
    then have "glob_match True [q] (s # ss)"
      using Cons.prems(2) assms(1) by (simp add: glob_match_seg glob_match_Nil)
    then show ?thesis using glob_match_star [of True "[q]" "s # ss"] by simp
  next
    case (Cons t ts)
    then have "glob_match True [''**'', q] ss" using Cons.IH Cons.prems(2) by simp
    then show ?thesis using glob_match_star [of True "[q]" "s # ss"] by simp
  qed
qed

lemma ends_spec_ts_ignored: "ignored (stem @ ''.spec.ts'')"
proof -
  let ?segs = "segments (stem @ ''.spec.ts'')"
  have segs: "?segs = butlast (segments stem) @ [last (segments stem) @ ''.spec.ts'']"
    by (rule segments_suffix) simp
  have w: "wild ''.spec.ts'' ''.spec.ts''" by (simp add: wild_lit wild_Nil)
  have "wild ''*.spec.ts'' (last (segments stem) @ ''.spec.ts'')"
    using wild_star_suffix [OF w] by simp
  then have "seg_match True ''*.spec.ts'' (last ?segs)"
    by (simp add: segs seg_match_def)
  moreover have "?segs \<noteq> []" by (simp add: segs)
  ultimately have "glob_match True [''**'', ''*.spec.ts''] ?segs"
    using glob_match_basename [of "''*.spec.ts''" ?segs] by simp
  moreover have "segments ''**/*.spec.ts'' = [''**'', ''*.spec.ts'']"
    by (simp add: segments_def)
  ultimately have "minimatch True ''**/*.spec.ts'' (stem @ ''.spec.ts'')"
    by (simp add: minimatch_def)
  then show ?thesis by (simp add: ignored_def IGNORE_def)
qed

lemma placeholder_inj: "placeholder f = placeholder g \<Longrightarrow> f = g"
  by (simp add: placeholder_def)

subsection \<open>The file system calls only add entries\<close>

lemma update_fresh_le: "map_of disk k = None \<Longrightarrow> map_of disk \<subseteq>\<^sub>m map_of (AList.update k v disk)"
  by (auto simp: map_le_def update_conv')

lemma mkdirs_mono: "map_of disk \<subseteq>\<^sub>m map_of (fst (mkdirs ds disk))"
proof (induction ds arbitrary: disk)
  case Nil
  then show ?case by simp
next
  case (Cons d ds)
  show ?case
  proof (cases "map_of disk d")
    case None
    then have "map_of disk \<subseteq>\<^sub>m map_of (AList.update d Dir disk)" by (rule update_fresh_le)
    also have "\<dots> \<subseteq>\<^sub>m map_of (fst (mkdirs ds (AList.update d Dir disk)))" by (rule Cons.IH)
    finally show ?thesis using None by simp
  next
    case (Some e)
    then show ?thesis using Cons.IH [of disk] by (cases e) simp_all
  qed
qed

lemma mkdirs_files:
  "map_of (fst (mkdirs ds disk)) p = Some (File c) \<Longrightarrow> map_of disk p = Some (File c)"
proof (induction ds arbitrary: disk)
  case Nil
  then show ?case by simp
next
  case (Cons d ds)
  show ?case
  proof (cases "map_of disk d")
    case None
    with Cons.prems have "map_of (fst (mkdirs ds (AList.update d Dir disk))) p = Some (File c)"
      by simp
    then have "map_of (AList.update d Dir disk) p = Some (File c)" by (rule Cons.IH)
    then show ?thesis by (auto simp: update_conv' split: if_splits)
  next
    case (Some e)
    then show ?thesis using Cons.prems Cons.IH [of disk] by (cases e) simp_all
  qed
qed

lemma writeFileSync_cases:
  assumes "writeFileSync p data disk = (disk', err)"
  shows "(err = None \<and> map_of disk p \<noteq> Some Dir \<and> map_of disk' = (map_of disk)(p \<mapsto> File data))
       \<or> (err \<noteq> None \<and> disk' = disk)"
  using assms
  by (auto simp: writeFileSync_def update_conv' split: option.splits entry.splits if_splits)

lemma new_files_same: "new_files m m = {}"
  by (auto simp: new_files_def)

lemma finite_new_files: "finite (new_files m (map_of disk))"
proof -
  have "new_files m (map_of disk) \<subseteq> dom (map_of disk)" by (auto simp: new_files_def)
  then show ?thesis using finite_dom_map_of finite_subset by blast
qed

lemma new_files_split:
  assumes "m0 \<subseteq>\<^sub>m m1" "m1 \<subseteq>\<^sub>m m2"
  shows "new_files m0 m2 = new_files m0 m1 \<union> new_files m1 m2"
    and "new_files m0 m1 \<inter> new_files m1 m2 = {}"
proof -
  have up1: "\<And>p e. m0 p = Some e \<Longrightarrow> m1 p = Some e"
    using assms(1) by (metis domI map_le_def)
  have up2: "\<And>p e. m1 p = Some e \<Longrightarrow> m2 p = Some e"
    using assms(2) by (metis domI map_le_def)
  show "new_files m0 m2 = new_files m0 m1 \<union> new_files m1 m2"
  proof (rule set_eqI)
    fix p
    show "p \<in> new_files m0 m2 \<longleftrightarrow> p \<in> new_files m0 m1 \<union> new_files m1 m2"
    proof (cases "m1 p")
      case None
      then have "m0 p = None" using up1 by (cases "m0 p") auto
      then show ?thesis using None by (auto simp: new_files_def)
    next
      case (Some e)
      then have "m2 p = Some e" by (rule up2)
      then show ?thesis using Some by (auto simp: new_files_def)
    qed
  qed
  show "new_files m0 m1 \<inter> new_files m1 m2 = {}" by (auto simp: new_files_def)
qed

subsection \<open>One iteration\<close>

lemma loop_body_skip: "existsSync (fs st) (spec_path file) \<Longrightarrow> loop_body file st = (st, None)"
  by (simp add: loop_body_def)

text \<open>What one iteration does, in the three ways it can end.\<close>

lemma loop_body_cases:
  assumes "loop_body file st = (st', err)"
  shows "(existsSync (fs st) (spec_path file) \<and> st' = st \<and> err = None)
       \<or> (\<not> existsSync (fs st) (spec_path file) \<and> err \<noteq> None
            \<and> created st' = created st \<and> console st' = console st
            \<and> map_of (fs st) \<subseteq>\<^sub>m map_of (fs st')
            \<and> (\<forall>p c. map_of (fs st') p = Some (File c) \<longrightarrow> map_of (fs st) p = Some (File c)))
       \<or> (\<not> existsSync (fs st) (spec_path file) \<and> err = None
            \<and> created st' = created st + 1
            \<and> console st' = console st @ [''Created: '' @ spec_path file]
            \<and> (\<exists>disk1. map_of (fs st) \<subseteq>\<^sub>m map_of disk1
                  \<and> (\<forall>p c. map_of disk1 p = Some (File c) \<longrightarrow> map_of (fs st) p = Some (File c))
                  \<and> map_of disk1 (spec_path file) = None
                  \<and> map_of (fs st') = (map_of disk1)(spec_path file \<mapsto> File (placeholder file))))"
proof (cases "existsSync (fs st) (spec_path file)")
  case True
  then show ?thesis using assms by (simp add: loop_body_def)
next
  case False
  obtain disk1 e1 where mk: "mkdirSync (dirname (spec_path file)) (fs st) = (disk1, e1)"
    by (cases "mkdirSync (dirname (spec_path file)) (fs st)")
  have mono1: "map_of (fs st) \<subseteq>\<^sub>m map_of disk1"
    using mkdirs_mono [of "fs st" "ancestors (dirname (spec_path file))"] mk
    by (simp add: mkdirSync_def)
  have files1: "\<forall>p c. map_of disk1 p = Some (File c) \<longrightarrow> map_of (fs st) p = Some (File c)"
    using mkdirs_files [of "ancestors (dirname (spec_path file))" "fs st"] mk
    by (simp add: mkdirSync_def)
  show ?thesis
  proof (cases e1)
    case (Some e)
    then have "st' = st\<lparr>fs := disk1\<rparr>" "err = Some e"
      using assms False mk by (simp_all add: loop_body_def)
    then show ?thesis using False mono1 files1 by simp
  next
    case None
    obtain disk2 e2 where wr: "writeFileSync (spec_path file) (placeholder file) disk1 = (disk2, e2)"
      by (cases "writeFileSync (spec_path file) (placeholder file) disk1")
    show ?thesis
    proof (cases e2)
      case (Some e)
      then have "disk2 = disk1" using writeFileSync_cases [OF wr] by simp
      moreover have "st' = st\<lparr>fs := disk2\<rparr>" "err = Some e"
        using assms False mk None wr Some by (simp_all add: loop_body_def)
      ultimately show ?thesis using False mono1 files1 by simp
    next
      case None2: None
      then have w: "map_of disk1 (spec_path file) \<noteq> Some Dir"
        "map_of disk2 = (map_of disk1)(spec_path file \<mapsto> File (placeholder file))"
        using writeFileSync_cases [OF wr] by simp_all
      have 0: "map_of (fs st) (spec_path file) = None" using False by (simp add: existsSync_def)
      have absent: "map_of disk1 (spec_path file) = None"
      proof (cases "map_of disk1 (spec_path file)")
        case (Some a)
        then show ?thesis using w(1) files1 0 by (cases a) auto
      qed simp
      have "st' = st\<lparr>fs := disk2, console := console st @ [''Created: '' @ spec_path file],
                created := created st + 1\<rparr>" "err = None"
        using assms False mk None wr None2 by (simp_all add: loop_body_def)
      then show ?thesis using False mono1 files1 absent w(2) by auto
    qed
  qed
qed

lemma loop_body_mono:
  assumes "loop_body file st = (st', err)"
  shows "map_of (fs st) \<subseteq>\<^sub>m map_of (fs st')"
  using loop_body_cases [OF assms]
proof (elim disjE conjE exE)
  fix disk1
  assume a: "map_of (fs st) \<subseteq>\<^sub>m map_of disk1" "map_of disk1 (spec_path file) = None"
    "map_of (fs st') = (map_of disk1)(spec_path file \<mapsto> File (placeholder file))"
  have "map_of disk1 \<subseteq>\<^sub>m map_of (fs st')" using a(2,3) by (auto simp: map_le_def)
  with a(1) show ?thesis by (rule map_le_trans)
qed simp_all

lemma loop_body_new_file:
  assumes "loop_body file st = (st', err)"
    and "map_of (fs st') p = Some (File c)" and "map_of (fs st) p \<noteq> Some (File c)"
  shows "p = spec_path file \<and> c = placeholder file \<and> map_of (fs st) p = None"
  using loop_body_cases [OF assms(1)] assms(2,3)
  by (auto simp: existsSync_def split: if_splits)

lemma loop_body_created:
  assumes "loop_body file st = (st', err)"
  shows "created st' = created st + card (new_files (map_of (fs st)) (map_of (fs st')))"
  using loop_body_cases [OF assms]
proof (elim disjE conjE exE)
  assume "st' = st"
  then show ?thesis by (simp add: new_files_same)
next
  assume "created st' = created st"
    and "\<forall>p c. map_of (fs st') p = Some (File c) \<longrightarrow> map_of (fs st) p = Some (File c)"
  moreover from this(2) have "new_files (map_of (fs st)) (map_of (fs st')) = {}"
    by (auto simp: new_files_def)
  ultimately show ?thesis by simp
next
  fix disk1
  assume a: "\<not> existsSync (fs st) (spec_path file)" "created st' = created st + 1"
    "\<forall>p c. map_of disk1 p = Some (File c) \<longrightarrow> map_of (fs st) p = Some (File c)"
    "map_of (fs st') = (map_of disk1)(spec_path file \<mapsto> File (placeholder file))"
  have "new_files (map_of (fs st)) (map_of (fs st')) = {spec_path file}"
    using a(1,3,4) by (auto simp: new_files_def existsSync_def split: if_splits)
  then show ?thesis using a(2) by simp
qed

subsection \<open>The loop\<close>

lemma for_files_mono:
  "for_files files st = (st', err) \<Longrightarrow> map_of (fs st) \<subseteq>\<^sub>m map_of (fs st')"
proof (induction files arbitrary: st)
  case Nil
  then show ?case by simp
next
  case (Cons f rest)
  obtain st1 e1 where b: "loop_body f st = (st1, e1)" by (cases "loop_body f st")
  have m1: "map_of (fs st) \<subseteq>\<^sub>m map_of (fs st1)" using b by (rule loop_body_mono)
  show ?case
  proof (cases e1)
    case None
    then have "for_files rest st1 = (st', err)" using Cons.prems b by simp
    then have "map_of (fs st1) \<subseteq>\<^sub>m map_of (fs st')" by (rule Cons.IH)
    with m1 show ?thesis by (rule map_le_trans)
  next
    case (Some e)
    then have "st' = st1" using Cons.prems b by simp
    then show ?thesis using m1 by simp
  qed
qed

lemma map_le_Some: "m \<subseteq>\<^sub>m m' \<Longrightarrow> m p = Some e \<Longrightarrow> m' p = Some e"
  by (metis domI map_le_def)

lemma for_files_new_file:
  "for_files files st = (st', err) \<Longrightarrow> map_of (fs st') p = Some (File c) \<Longrightarrow>
   map_of (fs st) p \<noteq> Some (File c) \<Longrightarrow>
   \<exists>file \<in> set files. p = spec_path file \<and> c = placeholder file \<and> map_of (fs st) p = None"
proof (induction files arbitrary: st)
  case Nil
  then show ?case by simp
next
  case (Cons f rest)
  obtain st1 e1 where b: "loop_body f st = (st1, e1)" by (cases "loop_body f st")
  have m1: "map_of (fs st) \<subseteq>\<^sub>m map_of (fs st1)" using b by (rule loop_body_mono)
  show ?case
  proof (cases "map_of (fs st1) p = Some (File c)")
    case True
    then have "p = spec_path f \<and> c = placeholder f \<and> map_of (fs st) p = None"
      using loop_body_new_file [OF b] Cons.prems(3) by blast
    then show ?thesis by auto
  next
    case False
    have "e1 = None"
    proof (cases e1)
      case (Some e)
      then have "st' = st1" using Cons.prems(1) b by simp
      then show ?thesis using False Cons.prems(2) by simp
    qed simp
    then have "for_files rest st1 = (st', err)" using Cons.prems(1) b by simp
    from Cons.IH [OF this Cons.prems(2) False]
    obtain g where g: "g \<in> set rest" "p = spec_path g" "c = placeholder g" "map_of (fs st1) p = None"
      by blast
    have "map_of (fs st) p = None"
      using map_le_Some [OF m1, of p] g(4) by (cases "map_of (fs st) p") auto
    then show ?thesis using g by auto
  qed
qed

lemma for_files_created:
  "for_files files st = (st', err) \<Longrightarrow>
   created st' = created st + card (new_files (map_of (fs st)) (map_of (fs st')))"
proof (induction files arbitrary: st)
  case Nil
  then show ?case by (simp add: new_files_same)
next
  case (Cons f rest)
  obtain st1 e1 where b: "loop_body f st = (st1, e1)" by (cases "loop_body f st")
  have c1: "created st1 = created st + card (new_files (map_of (fs st)) (map_of (fs st1)))"
    using b by (rule loop_body_created)
  show ?case
  proof (cases e1)
    case (Some e)
    then have "st' = st1" using Cons.prems b by simp
    then show ?thesis using c1 by simp
  next
    case None
    then have r: "for_files rest st1 = (st', err)" using Cons.prems b by simp
    have c2: "created st' = created st1 + card (new_files (map_of (fs st1)) (map_of (fs st')))"
      using r by (rule Cons.IH)
    have m1: "map_of (fs st) \<subseteq>\<^sub>m map_of (fs st1)" using b by (rule loop_body_mono)
    have m2: "map_of (fs st1) \<subseteq>\<^sub>m map_of (fs st')" using r by (rule for_files_mono)
    have "card (new_files (map_of (fs st)) (map_of (fs st')))
        = card (new_files (map_of (fs st)) (map_of (fs st1)))
        + card (new_files (map_of (fs st1)) (map_of (fs st')))"
      using new_files_split [OF m1 m2] finite_new_files card_Un_disjoint by metis
    then show ?thesis using c1 c2 by simp
  qed
qed

lemma for_files_console_created:
  "for_files files st = (st', err) \<Longrightarrow>
   \<exists>specs. console st' = console st @ map (\<lambda>spec. ''Created: '' @ spec) specs
      \<and> created st' = created st + length specs"
proof (induction files arbitrary: st)
  case Nil
  then show ?case by simp
next
  case (Cons f rest)
  obtain st1 e1 where b: "loop_body f st = (st1, e1)" by (cases "loop_body f st")
  from loop_body_cases [OF b]
  obtain s1 where s1: "console st1 = console st @ map (\<lambda>spec. ''Created: '' @ spec) s1"
    "created st1 = created st + length s1"
  proof (elim disjE conjE exE)
    assume "st1 = st"
    then have "console st1 = console st @ map (\<lambda>spec. ''Created: '' @ spec) []"
      "created st1 = created st + length ([] :: string list)" by simp_all
    then show ?thesis using that by blast
  next
    assume "created st1 = created st" "console st1 = console st"
    then have "console st1 = console st @ map (\<lambda>spec. ''Created: '' @ spec) []"
      "created st1 = created st + length ([] :: string list)" by simp_all
    then show ?thesis using that by blast
  next
    assume "created st1 = created st + 1" "console st1 = console st @ [''Created: '' @ spec_path f]"
    then have "console st1 = console st @ map (\<lambda>spec. ''Created: '' @ spec) [spec_path f]"
      "created st1 = created st + length [spec_path f]" by simp_all
    then show ?thesis using that by blast
  qed
  show ?case
  proof (cases e1)
    case (Some e)
    then have "st' = st1" using Cons.prems b by simp
    then show ?thesis using s1 by blast
  next
    case None
    then have "for_files rest st1 = (st', err)" using Cons.prems b by simp
    from Cons.IH [OF this] obtain s2 where
      "console st' = console st1 @ map (\<lambda>spec. ''Created: '' @ spec) s2"
      "created st' = created st1 + length s2" by blast
    then have "console st' = console st @ map (\<lambda>spec. ''Created: '' @ spec) (s1 @ s2)"
      "created st' = created st + length (s1 @ s2)" using s1 by simp_all
    then show ?thesis by blast
  qed
qed

subsection \<open>The whole run\<close>

lemma main_run:
  assumes "main disk = (st', err)"
  obtains st where "for_files (globSync disk) \<lparr>fs = disk, created = 0, console = []\<rparr> = (st, err)"
    and "fs st' = fs st" and "created st' = created st"
    and "console st' = (if err = None then console st @ [done_line (created st)] else console st)"
proof -
  obtain st e where r: "for_files (globSync disk) \<lparr>fs = disk, created = 0, console = []\<rparr> = (st, e)"
    by (cases "for_files (globSync disk) \<lparr>fs = disk, created = 0, console = []\<rparr>")
  show ?thesis
  proof (cases e)
    case None
    then have "st' = st\<lparr>console := console st @ [done_line (created st)]\<rparr>" "err = None"
      using assms r by (simp_all add: main_def)
    then show ?thesis using that [of st] r None by simp
  next
    case (Some x)
    then have "st' = st" "err = Some x" using assms r by (simp_all add: main_def)
    then show ?thesis using that [of st] r Some by simp
  qed
qed

lemma main_mono:
  assumes "main disk = (st', err)"
  shows "map_of disk \<subseteq>\<^sub>m map_of (fs st')"
proof -
  from assms obtain st where
    r: "for_files (globSync disk) \<lparr>fs = disk, created = 0, console = []\<rparr> = (st, err)"
    and f: "fs st' = fs st" by (rule main_run)
  from for_files_mono [OF r] f show ?thesis by simp
qed

lemma globSync_sound:
  "f \<in> set (globSync disk) \<Longrightarrow> minimatch False TS_GLOB f \<and> \<not> ignored f \<and> f \<in> fst ` set disk"
  by (auto simp: globSync_def)

subsection \<open>The printed count\<close>

lemma digit_char: "d < 10 \<Longrightarrow> is_digit (char_of (48 + d)) \<and> (of_char (char_of (48 + d)) :: nat) - 48 = d"
  by (simp add: is_digit_def)

lemma decimal_digits:
  "decimal n \<noteq> [] \<and> list_all is_digit (decimal n)
   \<and> foldl (\<lambda>a c. 10 * a + (of_char c - 48)) 0 (decimal n) = n"
proof (induction n rule: decimal.induct)
  case (1 n)
  show ?case
  proof (cases "n < 10")
    case True
    then have "decimal n = [char_of (48 + n)]" by (subst decimal.simps) simp
    then show ?thesis using digit_char [OF True] by (simp del: decimal.simps)
  next
    case False
    then have d: "decimal n = decimal (n div 10) @ [char_of (48 + n mod 10)]"
      by (subst decimal.simps) simp
    have m: "n mod 10 < 10" by simp
    show ?thesis using "1.IH" [OF False] digit_char [OF m] by (simp add: d del: decimal.simps)
  qed
qed

lemma read_decimal_decimal: "read_decimal (decimal n) = Some n"
  using decimal_digits [of n] by (simp add: read_decimal_def)

lemma char_of_49: "char_of (49::nat) = CHR ''1''"
  by code_simp

lemma decimal_1: "decimal 1 = ''1''"
  by (subst decimal.simps) (simp add: char_of_49)

lemma done_line_1: "done_line 1 = CHR 0x0A # ''Done. Created 1 missing spec files.''"
  unfolding done_line_def decimal_1 by simp

subsection \<open>The tool on the sample project\<close>

lemma globSync_project:
  "globSync project = [''src/app/app.ts'', ''src/app/homepage/homepage.component.ts'']"
  by code_simp

lemma for_files_project:
  "for_files [''src/app/app.ts'', ''src/app/homepage/homepage.component.ts'']
      \<lparr>fs = project, created = 0, console = []\<rparr> =
    (\<lparr>fs = project @ [(''src/app/homepage/homepage.component.spec.ts'',
          File (placeholder ''src/app/homepage/homepage.component.ts''))],
      created = 1,
      console = [''Created: src/app/homepage/homepage.component.spec.ts'']\<rparr>, None)"
  by code_simp

lemma main_project:
  "main project =
    (\<lparr>fs = project @ [(''src/app/homepage/homepage.component.spec.ts'',
          File (placeholder ''src/app/homepage/homepage.component.ts''))],
      created = 1,
      console = [''Created: src/app/homepage/homepage.component.spec.ts'', done_line 1]\<rparr>, None)"
  unfolding main_def globSync_project for_files_project by simp

subsection \<open>Further properties of the tool\<close>

lemma loop_body_ensures:
  assumes "loop_body f st = (st', None)"
  shows "existsSync (fs st') (spec_path f)"
  using loop_body_cases [OF assms]
  by (auto simp: existsSync_def)

lemma for_files_ensures:
  "for_files files st = (st', None) \<Longrightarrow> f \<in> set files \<Longrightarrow> existsSync (fs st') (spec_path f)"
proof (induction files arbitrary: st)
  case Nil
  then show ?case by simp
next
  case (Cons g rest)
  obtain st1 e1 where b: "loop_body g st = (st1, e1)" by (cases "loop_body g st")
  have e1: "e1 = None" using Cons.prems(1) b by (cases e1) auto
  then have r: "for_files rest st1 = (st', None)" using Cons.prems(1) b by simp
  show ?case
  proof (cases "f = g")
    case True
    then have "existsSync (fs st1) (spec_path f)" using loop_body_ensures b e1 by blast
    then obtain e where "map_of (fs st1) (spec_path f) = Some e" by (auto simp: existsSync_def)
    then have "map_of (fs st') (spec_path f) = Some e"
      using map_le_Some [OF for_files_mono [OF r]] by blast
    then show ?thesis by (simp add: existsSync_def)
  next
    case False
    then have "f \<in> set rest" using Cons.prems(2) by simp
    with r show ?thesis by (rule Cons.IH)
  qed
qed

text \<open>
  When the run ends without an exception, every matched source file has something at its
  spec path: the entry that was there, or the placeholder.
\<close>

theorem every_matched_file_gets_a_spec:
  assumes "main disk = (st', None)" and "f \<in> set (globSync disk)"
  shows "existsSync (fs st') (spec_path f)"
proof -
  from assms(1) obtain st where
    r: "for_files (globSync disk) \<lparr>fs = disk, created = 0, console = []\<rparr> = (st, None)"
    and f: "fs st' = fs st" by (rule main_run)
  from for_files_ensures [OF r assms(2)] f show ?thesis by simp
qed

theorem every_matched_file_gets_a_spec_witness:
  "main project = (fst (main project), None)
   \<and> ''src/app/homepage/homepage.component.ts'' \<in> set (globSync project)
   \<and> existsSync (fs (fst (main project))) (spec_path ''src/app/homepage/homepage.component.ts'')"
proof -
  have m: "main project = (fst (main project), None)" by (simp add: main_project)
  have g: "''src/app/homepage/homepage.component.ts'' \<in> set (globSync project)"
    by (simp add: globSync_project)
  from every_matched_file_gets_a_spec [OF m g] m g show ?thesis by simp
qed

text \<open>
  The run changes the disk at new paths only: a path whose entry differs after the run
  held nothing before, and holds a directory made on the way to a spec file, or the
  placeholder of a matched source file, at that file's spec path.
\<close>

theorem run_changes_only_new_paths:
  assumes "main disk = (st', err)" and "map_of (fs st') p \<noteq> map_of disk p"
  shows "map_of disk p = None
    \<and> (map_of (fs st') p = Some Dir
        \<or> (\<exists>f \<in> set (globSync disk). p = spec_path f
              \<and> map_of (fs st') p = Some (File (placeholder f))))"
proof -
  from assms(1) obtain st where
    r: "for_files (globSync disk) \<lparr>fs = disk, created = 0, console = []\<rparr> = (st, err)"
    and f: "fs st' = fs st" by (rule main_run)
  have le: "map_of disk \<subseteq>\<^sub>m map_of (fs st')" using assms(1) by (rule main_mono)
  have none: "map_of disk p = None"
  proof (cases "map_of disk p")
    case (Some e)
    then have "map_of (fs st') p = Some e" using map_le_Some [OF le] by blast
    then show ?thesis using assms(2) Some by simp
  qed simp
  then obtain e where e: "map_of (fs st') p = Some e" using assms(2) by (cases "map_of (fs st') p") auto
  show ?thesis
  proof (cases e)
    case Dir
    then show ?thesis using none e by simp
  next
    case (File c)
    then have "map_of (fs st) p = Some (File c)" using e f by simp
    from for_files_new_file [OF r this] none
    have "\<exists>g \<in> set (globSync disk). p = spec_path g \<and> c = placeholder g" by auto
    then show ?thesis using none e File by auto
  qed
qed

theorem run_changes_only_new_paths_witness:
  "map_of (fs (fst (main project))) ''src/app/homepage/homepage.component.spec.ts''
     \<noteq> map_of project ''src/app/homepage/homepage.component.spec.ts''
   \<and> map_of project ''src/app/homepage/homepage.component.spec.ts'' = None"
proof -
  have m: "main project = (fst (main project), snd (main project))" by simp
  have n: "map_of project ''src/app/homepage/homepage.component.spec.ts'' = None"
    by code_simp
  have "map_of (project @ [(''src/app/homepage/homepage.component.spec.ts'',
          File (placeholder ''src/app/homepage/homepage.component.ts''))])
       ''src/app/homepage/homepage.component.spec.ts''
       = Some (File (placeholder ''src/app/homepage/homepage.component.ts''))"
    by code_simp
  then have d: "map_of (fs (fst (main project))) ''src/app/homepage/homepage.component.spec.ts''
     \<noteq> map_of project ''src/app/homepage/homepage.component.spec.ts''"
    using n by (simp add: main_project)
  from run_changes_only_new_paths [OF m d] d show ?thesis by simp
qed

subsection \<open>Spec files are not source files\<close>

text \<open>
  A path that ends in \<open>.spec.ts\<close> matches the first \<open>IGNORE\<close> pattern, so the tool never
  takes a spec file, its own placeholders included, for a source file.
\<close>

theorem spec_files_are_ignored:
  "ignored (stem @ ''.spec.ts'') \<and> stem @ ''.spec.ts'' \<notin> set (globSync disk)"
  using ends_spec_ts_ignored [of stem] by (simp add: globSync_def)

theorem spec_files_are_ignored_witness:
  "ignored ''src/app/app.spec.ts'' \<and> ''src/app/app.spec.ts'' \<notin> set (globSync project)"
  using spec_files_are_ignored [of "''src/app/app''" project] by simp

text \<open>The \<open>IGNORE\<close> list on one path for each of its patterns, and on two source files.\<close>

lemma ignored_examples:
  "ignored ''src/app/app.spec.ts''" "ignored ''src/types.d.ts''"
  "ignored ''src/node_modules/pkg/index.ts''" "ignored ''src/dist/out.ts''"
  "ignored ''src/coverage/report.ts''" "ignored ''src/main.ts''"
  "ignored ''src/polyfills.ts''" "ignored ''src/test.ts''"
  "ignored ''src/environments/environment.prod.ts''" "ignored ''src/app/app.routes.ts''"
  "ignored ''src/app/app.config.ts''" "ignored ''src/app/app.module.ts''"
  "\<not> ignored ''src/app/app.ts''" "\<not> ignored ''src/app/homepage/homepage.component.ts''"
  by code_simp+

subsection \<open>The tool on a well-formed tree\<close>

lemma mkdirs_noop:
  "list_all (\<lambda>d. map_of disk d = Some Dir) ds \<Longrightarrow> mkdirs ds disk = (disk, None)"
  by (induction ds) simp_all

lemma dirname_suffix:
  assumes "CHR ''/'' \<notin> set suf" and "CHR ''/'' \<notin> set suf'"
  shows "dirname (stem @ suf) = dirname (stem @ suf')"
  by (simp add: dirname_def segments_suffix [OF assms(1)] segments_suffix [OF assms(2)])

lemma dirname_spec_path: "dirname (spec_path (stem @ ''.ts'')) = dirname (stem @ ''.ts'')"
  unfolding spec_path_ts by (rule dirname_suffix) simp_all

lemma wild_src: "wild ''src'' s = (s = ''src'')"
  by (auto simp: wild_lit wild_Nil)

lemma join_with_Cons_nonempty: "s \<noteq> [] \<Longrightarrow> join_with c (s # ss) \<noteq> []"
  by (cases ss) simp_all

lemma join_with_hd: "s \<noteq> [] \<Longrightarrow> hd (join_with c (s # ss)) = hd s"
  by (cases ss) simp_all

lemma matched_dirname:
  assumes "minimatch False TS_GLOB g"
  shows "dirname g \<noteq> ''.'' \<and> dirname g \<noteq> ''/'' \<and> dirname g \<noteq> []
    \<and> dirname g \<in> set (ancestors (dirname g))"
proof -
  have segs: "segments TS_GLOB = [''src'', ''**'', ''*.ts'']"
    by (simp add: segments_def TS_GLOB_def)
  from assms have "glob_match False [''src'', ''**'', ''*.ts''] (segments g)"
    by (simp add: minimatch_def segs)
  then obtain s ss where sp: "segments g = s # ss" and s: "seg_match False ''src'' s"
    and g: "glob_match False [''**'', ''*.ts''] ss"
    by (auto simp: glob_match_seg)
  have s': "s = ''src''" using seg_match_wild [OF s] by (simp add: wild_src)
  from glob_match_last [OF _ g] have ne: "ss \<noteq> []" by simp
  then have bl: "butlast (segments g) = ''src'' # butlast ss" using sp s' by simp
  let ?d = "join_with CHR ''/'' (''src'' # butlast ss)"
  have hd: "hd ?d = CHR ''s''" using join_with_hd [of "''src''" "CHR ''/''" "butlast ss"] by simp
  have nonempty: "?d \<noteq> []" by (rule join_with_Cons_nonempty) simp
  have len: "\<not> length (segments g) \<le> 1" using sp ne by (cases ss) simp_all
  have d: "dirname g = ?d" using len bl nonempty by (simp add: dirname_def Let_def)
  have 1: "dirname g \<noteq> ''.''" using hd d by auto
  have 2: "dirname g \<noteq> ''/''" using hd d by auto
  have 3: "dirname g \<noteq> []" using nonempty d by simp
  let ?n = "length (segments (dirname g))"
  have "1 \<le> ?n" using split_on_nonempty [of "CHR ''/''" "dirname g"]
    by (cases "segments (dirname g)") (simp_all add: segments_def)
  then have "?n \<in> set [1..<Suc ?n]" by simp
  moreover have "join_with CHR ''/'' (take ?n (segments (dirname g))) = dirname g"
    by (simp add: segments_def join_split)
  ultimately have "dirname g \<in> (\<lambda>n. join_with CHR ''/'' (take n (segments (dirname g)))) ` set [1..<Suc ?n]"
    by (metis (no_types, lifting) image_eqI)
  then have 4: "dirname g \<in> set (ancestors (dirname g))"
    using 1 2 3 by (simp add: ancestors_def)
  from 1 2 3 4 show ?thesis by blast
qed

lemma tree_okD:
  "tree_ok disk \<Longrightarrow> p \<in> set (map fst disk) \<Longrightarrow> d \<in> set (ancestors (dirname p)) \<Longrightarrow>
   map_of disk d = Some Dir"
  by (auto simp: tree_ok_def list_all_iff)

lemma tree_ok_add_file:
  assumes ok: "tree_ok disk" and new: "map_of disk k = None"
    and dir: "\<forall>d \<in> set (ancestors (dirname k)). map_of disk d = Some Dir"
  shows "tree_ok (AList.update k (File c) disk)"
proof -
  have keys: "map fst (AList.update k (File c) disk) = map fst disk @ [k]"
    using new by (simp add: update_keys map_of_eq_None_iff)
  have keep: "map_of (AList.update k (File c) disk) d = Some Dir" if "map_of disk d = Some Dir" for d
    using that new by (auto simp: update_conv')
  show ?thesis
    unfolding tree_ok_def keys list_all_iff
  proof (intro ballI)
    fix p d assume p: "p \<in> set (map fst disk @ [k])" and d: "d \<in> set (ancestors (dirname p))"
    have "map_of disk d = Some Dir"
    proof (cases "p = k")
      case True
      then show ?thesis using dir d by simp
    next
      case False
      then have "p \<in> set (map fst disk)" using p by simp
      then show ?thesis using tree_okD [OF ok] d by blast
    qed
    then show "map_of (AList.update k (File c) disk) d = Some Dir" by (rule keep)
  qed
qed

text \<open>One iteration on a well-formed tree, for a matched file of the tree.\<close>

lemma loop_body_tree_ok:
  assumes ok: "tree_ok (fs st)" and m: "minimatch False TS_GLOB g"
    and g: "g \<in> set (map fst (fs st))"
  shows "loop_body g st = (st, None)
    \<or> (map_of (fs st) (spec_path g) = None
        \<and> loop_body g st =
            (st\<lparr>fs := AList.update (spec_path g) (File (placeholder g)) (fs st),
                console := console st @ [''Created: '' @ spec_path g],
                created := created st + 1\<rparr>, None)
        \<and> tree_ok (AList.update (spec_path g) (File (placeholder g)) (fs st)))"
proof (cases "existsSync (fs st) (spec_path g)")
  case True
  then show ?thesis by (simp add: loop_body_skip)
next
  case False
  then have new: "map_of (fs st) (spec_path g) = None" by (simp add: existsSync_def)
  obtain stem where stem: "g = stem @ ''.ts''" using matched_ends_ts [OF m] by blast
  have dn: "dirname (spec_path g) = dirname g" using dirname_spec_path [of stem] stem by simp
  have dirs: "\<forall>d \<in> set (ancestors (dirname g)). map_of (fs st) d = Some Dir"
    using tree_okD [OF ok g] by blast
  then have mk: "mkdirSync (dirname (spec_path g)) (fs st) = (fs st, None)"
    by (simp add: mkdirSync_def dn mkdirs_noop list_all_iff)
  from matched_dirname [OF m] dirs have parent: "map_of (fs st) (dirname g) = Some Dir"
    and nd: "dirname g \<noteq> ''.''" "dirname g \<noteq> ''/''" by blast+
  have wr: "writeFileSync (spec_path g) (placeholder g) (fs st)
      = (AList.update (spec_path g) (File (placeholder g)) (fs st), None)"
    using new parent nd by (simp add: writeFileSync_def dn)
  have ok': "tree_ok (AList.update (spec_path g) (File (placeholder g)) (fs st))"
    using ok new dirs by (intro tree_ok_add_file) (simp_all add: dn)
  have "loop_body g st =
            (st\<lparr>fs := AList.update (spec_path g) (File (placeholder g)) (fs st),
                console := console st @ [''Created: '' @ spec_path g],
                created := created st + 1\<rparr>, None)"
    using False mk wr by (simp add: loop_body_def Let_def)
  then show ?thesis using new ok' by blast
qed

lemma is_spec_spec_path: "minimatch False TS_GLOB g \<Longrightarrow> is_spec (spec_path g)"
  using matched_ends_ts [of False g] spec_path_ts
  by (auto simp: is_spec_def ends_with_iff)

lemma for_files_tree_ok:
  assumes "tree_ok (fs st)"
    and "\<forall>g \<in> set files. minimatch False TS_GLOB g \<and> g \<in> set (map fst (fs st))"
  shows "\<exists>st' ks. for_files files st = (st', None) \<and> tree_ok (fs st')
           \<and> map fst (fs st') = map fst (fs st) @ ks \<and> list_all is_spec ks"
  using assms
proof (induction files arbitrary: st)
  case Nil
  then show ?case by simp
next
  case (Cons g rest)
  have m: "minimatch False TS_GLOB g" and g: "g \<in> set (map fst (fs st))"
    using Cons.prems(2) by simp_all
  obtain st1 k1 where b: "loop_body g st = (st1, None)" and ok1: "tree_ok (fs st1)"
    and keys1: "map fst (fs st1) = map fst (fs st) @ k1" and spec1: "list_all is_spec k1"
  proof -
    from loop_body_tree_ok [OF Cons.prems(1) m g]
    show ?thesis
    proof
      assume "loop_body g st = (st, None)"
      then show ?thesis using that [of st "[]"] Cons.prems(1) by simp
    next
      assume a: "map_of (fs st) (spec_path g) = None
        \<and> loop_body g st =
            (st\<lparr>fs := AList.update (spec_path g) (File (placeholder g)) (fs st),
                console := console st @ [''Created: '' @ spec_path g],
                created := created st + 1\<rparr>, None)
        \<and> tree_ok (AList.update (spec_path g) (File (placeholder g)) (fs st))"
      then have "map fst (AList.update (spec_path g) (File (placeholder g)) (fs st))
          = map fst (fs st) @ [spec_path g]"
        by (simp add: update_keys map_of_eq_None_iff)
      then show ?thesis
        using a is_spec_spec_path [OF m]
          that [of "st\<lparr>fs := AList.update (spec_path g) (File (placeholder g)) (fs st),
                console := console st @ [''Created: '' @ spec_path g],
                created := created st + 1\<rparr>" "[spec_path g]"]
        by simp
    qed
  qed
  have "\<forall>h \<in> set rest. minimatch False TS_GLOB h \<and> h \<in> set (map fst (fs st1))"
    using Cons.prems(2) keys1 by simp
  from Cons.IH [OF ok1 this] obtain st' k2 where
    r: "for_files rest st1 = (st', None)" and ok': "tree_ok (fs st')"
    and keys2: "map fst (fs st') = map fst (fs st1) @ k2" and spec2: "list_all is_spec k2"
    by blast
  have "for_files (g # rest) st = (st', None)" using b r by simp
  moreover have "map fst (fs st') = map fst (fs st) @ (k1 @ k2)" using keys1 keys2 by simp
  moreover have "list_all is_spec (k1 @ k2)" using spec1 spec2 by simp
  ultimately show ?case using ok' by blast
qed

lemma is_spec_ignored: "is_spec p \<Longrightarrow> ignored p"
  using ends_spec_ts_ignored by (auto simp: is_spec_def ends_with_iff)

lemma globSync_keys:
  "globSync disk = filter (\<lambda>path. minimatch False TS_GLOB path \<and> \<not> ignored path) (map fst disk)"
  by (simp add: globSync_def)

lemma for_files_all_present:
  "\<forall>g \<in> set files. existsSync (fs st) (spec_path g) \<Longrightarrow> for_files files st = (st, None)"
  by (induction files) (simp_all add: loop_body_skip)

lemma spec_path_inj:
  assumes "minimatch False TS_GLOB f" "minimatch False TS_GLOB g" "spec_path f = spec_path g"
  shows "f = g"
proof -
  obtain s1 where 1: "f = s1 @ ''.ts''" using matched_ends_ts [OF assms(1)] by blast
  obtain s2 where 2: "g = s2 @ ''.ts''" using matched_ends_ts [OF assms(2)] by blast
  from assms(3) have "s1 @ ''.spec.ts'' = s2 @ ''.spec.ts''" by (simp add: 1 2 spec_path_ts)
  then show ?thesis using 1 2 by simp
qed

lemma for_files_creates:
  assumes "tree_ok (fs st)"
    and "\<forall>g \<in> set files. minimatch False TS_GLOB g \<and> g \<in> set (map fst (fs st))"
    and "for_files files st = (st', err)"
    and "f \<in> set files" and "map_of (fs st) (spec_path f) = None"
  shows "map_of (fs st') (spec_path f) = Some (File (placeholder f))"
  using assms
proof (induction files arbitrary: st)
  case Nil
  then show ?case by simp
next
  case (Cons g rest)
  have m: "minimatch False TS_GLOB g" and g: "g \<in> set (map fst (fs st))"
    using Cons.prems(2) by simp_all
  have mf: "minimatch False TS_GLOB f" using Cons.prems(2,4) by auto
  from loop_body_tree_ok [OF Cons.prems(1) m g]
  show ?case
  proof
    assume skip: "loop_body g st = (st, None)"
    then have r: "for_files rest st = (st', err)" using Cons.prems(3) by simp
    have "existsSync (fs st) (spec_path g)"
      using loop_body_ensures [OF skip] .
    then have "g \<noteq> f" using Cons.prems(5) by (auto simp: existsSync_def)
    then have "f \<in> set rest" using Cons.prems(4) by simp
    moreover have "\<forall>h \<in> set rest. minimatch False TS_GLOB h \<and> h \<in> set (map fst (fs st))"
      using Cons.prems(2) by simp
    ultimately show ?thesis using Cons.IH [OF Cons.prems(1) _ r _ Cons.prems(5)] by blast
  next
    let ?disk = "AList.update (spec_path g) (File (placeholder g)) (fs st)"
    let ?st1 = "st\<lparr>fs := ?disk, console := console st @ [''Created: '' @ spec_path g],
                created := created st + 1\<rparr>"
    assume a: "map_of (fs st) (spec_path g) = None \<and> loop_body g st = (?st1, None)
        \<and> tree_ok ?disk"
    then have r: "for_files rest ?st1 = (st', err)" using Cons.prems(3) by simp
    have keys: "map fst ?disk = map fst (fs st) @ [spec_path g]"
      using a by (simp add: update_keys map_of_eq_None_iff)
    have rest: "\<forall>h \<in> set rest. minimatch False TS_GLOB h \<and> h \<in> set (map fst (fs ?st1))"
      using Cons.prems(2) keys by simp
    have ok1: "tree_ok (fs ?st1)" using a by simp
    show ?thesis
    proof (cases "spec_path g = spec_path f")
      case True
      then have "g = f" using spec_path_inj [OF m mf] by simp
      then have "map_of (fs ?st1) (spec_path f) = Some (File (placeholder f))"
        by (simp add: update_conv')
      then show ?thesis using map_le_Some [OF for_files_mono [OF r]] by blast
    next
      case False
      then have "g \<noteq> f" by auto
      then have fr: "f \<in> set rest" using Cons.prems(4) by simp
      have none: "map_of (fs ?st1) (spec_path f) = None"
        using False Cons.prems(5) by (simp add: update_conv')
      from Cons.IH [OF ok1 rest r fr none] show ?thesis .
    qed
  qed
qed

lemma main_on_tree_ok:
  assumes "tree_ok disk" and "main disk = (st', err)"
  shows "err = None
    \<and> (\<forall>f \<in> set (globSync disk). map_of disk (spec_path f) = None \<longrightarrow>
          map_of (fs st') (spec_path f) = Some (File (placeholder f)))"
proof -
  let ?init = "\<lparr>fs = disk, created = 0, console = []\<rparr>"
  from assms(2) obtain st where
    r: "for_files (globSync disk) ?init = (st, err)" and f: "fs st' = fs st" by (rule main_run)
  have pre: "\<forall>g \<in> set (globSync disk). minimatch False TS_GLOB g \<and> g \<in> set (map fst (fs ?init))"
    using globSync_sound by auto
  have ok: "tree_ok (fs ?init)" using assms(1) by simp
  from for_files_tree_ok [OF ok pre] r have "err = None" by auto
  moreover have "map_of (fs st') (spec_path g) = Some (File (placeholder g))"
    if "g \<in> set (globSync disk)" "map_of disk (spec_path g) = None" for g
    using for_files_creates [OF ok pre r that(1)] that(2) f by simp
  ultimately show ?thesis by blast
qed

text \<open>
  On a well-formed tree the tool throws no exception: the run ends with the report, the
  tree is still well formed, every matched source file has its spec, and a second run
  finds nothing to do: it leaves the disk as it is and reports 0 created files.
\<close>

theorem run_on_well_formed_tree:
  assumes "tree_ok disk"
  shows "\<exists>st'. main disk = (st', None) \<and> tree_ok (fs st')
    \<and> (\<forall>g \<in> set (globSync disk). existsSync (fs st') (spec_path g))
    \<and> main (fs st') = (\<lparr>fs = fs st', created = 0, console = [done_line 0]\<rparr>, None)"
proof -
  let ?init = "\<lparr>fs = disk, created = 0, console = []\<rparr>"
  have "\<forall>g \<in> set (globSync disk). minimatch False TS_GLOB g \<and> g \<in> set (map fst (fs ?init))"
    using globSync_sound by auto
  with for_files_tree_ok [of ?init "globSync disk"] assms
  obtain st ks where r: "for_files (globSync disk) ?init = (st, None)" and ok: "tree_ok (fs st)"
    and keys: "map fst (fs st) = map fst disk @ ks" and specs: "list_all is_spec ks"
    by auto
  let ?st' = "st\<lparr>console := console st @ [done_line (created st)]\<rparr>"
  have m: "main disk = (?st', None)" using r by (simp add: main_def)
  have present: "\<forall>g \<in> set (globSync disk). existsSync (fs ?st') (spec_path g)"
    using for_files_ensures [OF r] by simp
  have "filter (\<lambda>path. minimatch False TS_GLOB path \<and> \<not> ignored path) ks = []"
    using specs is_spec_ignored by (auto simp: list_all_iff filter_empty_conv)
  then have same: "globSync (fs st) = globSync disk"
    by (simp add: globSync_keys keys)
  have "for_files (globSync (fs st)) \<lparr>fs = fs st, created = 0, console = []\<rparr>
      = (\<lparr>fs = fs st, created = 0, console = []\<rparr>, None)"
    using present by (intro for_files_all_present) (simp add: same)
  then have again: "main (fs ?st') = (\<lparr>fs = fs ?st', created = 0, console = [done_line 0]\<rparr>, None)"
    by (simp add: main_def)
  from m ok present again show ?thesis by auto
qed

lemma tree_ok_project: "tree_ok project"
  by code_simp

theorem run_on_well_formed_tree_witness:
  "tree_ok project \<and> snd (main project) = None
   \<and> main (fs (fst (main project)))
       = (\<lparr>fs = fs (fst (main project)), created = 0, console = [done_line 0]\<rparr>, None)"
  using run_on_well_formed_tree [OF tree_ok_project] tree_ok_project by auto

subsection \<open>Existing specs are left alone\<close>

text \<open>
  Claim C8. A matched source file whose spec file is already on disk is skipped, and
  nothing is written to that path: after the run, whether it ended normally or by an
  exception, the spec path holds the entry it held before. Every state the loop reaches
  extends the initial disk (\<open>for_files_mono\<close>), and in every such state the iteration
  for this file is the \<open>continue\<close>: it returns the state as it is, with no directory
  made, no file written, no line printed and \<open>created\<close> unchanged.
\<close>

theorem existing_spec_is_skipped:
  assumes "f \<in> set (globSync disk)" and "map_of disk (spec_path f) = Some e"
    and "main disk = (st', err)"
  shows "map_of (fs st') (spec_path f) = Some e
    \<and> (\<forall>st. map_of disk \<subseteq>\<^sub>m map_of (fs st) \<longrightarrow> loop_body f st = (st, None))"
proof -
  have "map_of (fs st') (spec_path f) = Some e"
    using map_le_Some [OF main_mono [OF assms(3)] assms(2)] .
  moreover have "loop_body f st = (st, None)" if "map_of disk \<subseteq>\<^sub>m map_of (fs st)" for st
  proof -
    have "map_of (fs st) (spec_path f) = Some e" using map_le_Some [OF that assms(2)] .
    then have "existsSync (fs st) (spec_path f)" by (simp add: existsSync_def)
    then show ?thesis by (rule loop_body_skip)
  qed
  ultimately show ?thesis by blast
qed

theorem existing_spec_is_skipped_witness:
  "''src/app/app.ts'' \<in> set (globSync project)
   \<and> map_of project (spec_path ''src/app/app.ts'') = Some (File ''hand-written'')
   \<and> map_of (fs (fst (main project))) (spec_path ''src/app/app.ts'') = Some (File ''hand-written'')
   \<and> loop_body ''src/app/app.ts'' \<lparr>fs = project, created = 0, console = []\<rparr>
       = (\<lparr>fs = project, created = 0, console = []\<rparr>, None)"
proof -
  have g: "''src/app/app.ts'' \<in> set (globSync project)" by (simp add: globSync_project)
  have s: "map_of project (spec_path ''src/app/app.ts'') = Some (File ''hand-written'')"
    by code_simp
  have m: "main project = (fst (main project), snd (main project))" by simp
  from existing_spec_is_skipped [OF g s m] g s show ?thesis by simp
qed

subsection \<open>What the tool creates\<close>

text \<open>What a run does, in terms of the functions of the model.\<close>

lemma run_summary:
  assumes "main disk = (st', err)"
  shows "(\<forall>f \<in> set (globSync disk). \<not> ignored f
            \<and> (\<exists>stem. f = stem @ ''.ts'' \<and> spec_path f = stem @ ''.spec.ts''))
    \<and> (\<forall>f st st1. \<not> existsSync (fs st) (spec_path f) \<and> loop_body f st = (st1, None) \<longrightarrow>
          map_of (fs st1) (spec_path f) = Some (File (placeholder f))
          \<and> created st1 = created st + 1)
    \<and> (\<forall>p c. map_of (fs st') p = Some (File c) \<and> map_of disk p \<noteq> Some (File c) \<longrightarrow>
          (\<exists>f \<in> set (globSync disk). p = spec_path f \<and> c = placeholder f \<and> map_of disk p = None))
    \<and> created st' = card (new_files (map_of disk) (map_of (fs st')))
    \<and> (\<exists>specs. length specs = created st'
          \<and> console st' = map (\<lambda>spec. ''Created: '' @ spec) specs
               @ (if err = None then [done_line (created st')] else []))
    \<and> (\<forall>f. ignored f \<longrightarrow> f \<notin> set (globSync disk)
          \<and> (\<forall>p. map_of (fs st') p = Some (File (placeholder f)) \<longrightarrow>
                map_of disk p = Some (File (placeholder f))))
    \<and> (tree_ok disk \<longrightarrow> err = None
          \<and> (\<forall>f \<in> set (globSync disk). map_of disk (spec_path f) = None \<longrightarrow>
                map_of (fs st') (spec_path f) = Some (File (placeholder f))))"
proof -
  from assms obtain st where
    r: "for_files (globSync disk) \<lparr>fs = disk, created = 0, console = []\<rparr> = (st, err)"
    and f: "fs st' = fs st" and c: "created st' = created st"
    and l: "console st' = (if err = None then console st @ [done_line (created st)] else console st)"
    by (rule main_run)
  have paths: "\<forall>f \<in> set (globSync disk). \<not> ignored f
            \<and> (\<exists>stem. f = stem @ ''.ts'' \<and> spec_path f = stem @ ''.spec.ts'')"
  proof
    fix g assume "g \<in> set (globSync disk)"
    then have m: "minimatch False TS_GLOB g" and i: "\<not> ignored g"
      using globSync_sound by blast+
    from matched_ends_ts [OF m] obtain stem where "g = stem @ ''.ts''" by blast
    then have "g = stem @ ''.ts'' \<and> spec_path g = stem @ ''.spec.ts''"
      using spec_path_ts [of stem] by simp
    then show "\<not> ignored g \<and> (\<exists>stem. g = stem @ ''.ts'' \<and> spec_path g = stem @ ''.spec.ts'')"
      using i by blast
  qed
  have step: "\<forall>g st0 st1. \<not> existsSync (fs st0) (spec_path g) \<and> loop_body g st0 = (st1, None) \<longrightarrow>
          map_of (fs st1) (spec_path g) = Some (File (placeholder g))
          \<and> created st1 = created st0 + 1"
  proof (intro allI impI)
    fix g st0 st1
    assume a: "\<not> existsSync (fs st0) (spec_path g) \<and> loop_body g st0 = (st1, None)"
    then have "loop_body g st0 = (st1, None)" by simp
    from loop_body_cases [OF this] a
    show "map_of (fs st1) (spec_path g) = Some (File (placeholder g))
          \<and> created st1 = created st0 + 1" by auto
  qed
  have new: "\<forall>p c. map_of (fs st') p = Some (File c) \<and> map_of disk p \<noteq> Some (File c) \<longrightarrow>
          (\<exists>f \<in> set (globSync disk). p = spec_path f \<and> c = placeholder f \<and> map_of disk p = None)"
    using for_files_new_file [OF r] f by simp
  have count: "created st' = card (new_files (map_of disk) (map_of (fs st')))"
    using for_files_created [OF r] f c by simp
  have report: "\<exists>specs. length specs = created st'
          \<and> console st' = map (\<lambda>spec. ''Created: '' @ spec) specs
               @ (if err = None then [done_line (created st')] else [])"
  proof -
    from for_files_console_created [OF r] obtain specs where
      "console st = map (\<lambda>spec. ''Created: '' @ spec) specs" "created st = length specs"
      by auto
    then have "length specs = created st'
          \<and> console st' = map (\<lambda>spec. ''Created: '' @ spec) specs
               @ (if err = None then [done_line (created st')] else [])"
      using l c by simp
    then show ?thesis by blast
  qed
  have ign: "\<forall>g. ignored g \<longrightarrow> g \<notin> set (globSync disk)
          \<and> (\<forall>p. map_of (fs st') p = Some (File (placeholder g)) \<longrightarrow>
                map_of disk p = Some (File (placeholder g)))"
  proof (intro allI impI conjI)
    fix g assume g: "ignored g"
    then show "g \<notin> set (globSync disk)" using globSync_sound by blast
    fix p assume p: "map_of (fs st') p = Some (File (placeholder g))"
    show "map_of disk p = Some (File (placeholder g))"
    proof (rule ccontr)
      assume "map_of disk p \<noteq> Some (File (placeholder g))"
      with new p obtain h where "h \<in> set (globSync disk)" "placeholder g = placeholder h"
        by blast
      then have "g \<in> set (globSync disk)" using placeholder_inj by blast
      then show False using g globSync_sound by blast
    qed
  qed
  have whole: "tree_ok disk \<longrightarrow> err = None
          \<and> (\<forall>f \<in> set (globSync disk). map_of disk (spec_path f) = None \<longrightarrow>
                map_of (fs st') (spec_path f) = Some (File (placeholder f)))"
    using main_on_tree_ok [OF _ assms] by blast
  from paths step new count report ign whole show ?thesis by blast
qed

text \<open>
  Claim C9. Of a run of the tool on any disk:
  \<^item> every file the loop processes is outside the \<open>IGNORE\<close> patterns and ends in \<open>.ts\<close>,
    and its spec path is the path with this \<open>.ts\<close> replaced by \<open>.spec.ts\<close>;
  \<^item> an iteration that finds no spec and completes leaves, at the spec path, a file whose
    content is the one line \<^verbatim>\<open>// Auto-created placeholder spec for <file>\<close> with its
    line feed, and adds one to \<open>created\<close>;
  \<^item> every file that the run has put on disk or changed is such a placeholder: it
    stands at the spec path of a processed file, holds the placeholder line of that
    file, and the path held nothing before;
  \<^item> \<open>created\<close> is the number of paths that held nothing before the run and hold a
    file after it;
  \<^item> the console shows one \<open>Created:\<close> line per unit of \<open>created\<close>, followed, when the
    loop was not ended by an exception, by the report, a line feed and
    \<^verbatim>\<open>Done. Created <n> missing spec files.\<close>, where the digits \<open><n>\<close> read back as
    \<open>created\<close>;
  \<^item> a path that matches an \<open>IGNORE\<close> pattern is not processed, and no file with the
    placeholder line of such a path appears;
  \<^item> on a well-formed tree no exception ends the run, and every processed file that had
    nothing at its spec path has its placeholder there after the run.
\<close>

theorem placeholder_specs_created:
  assumes "main disk = (st', err)"
  shows "(\<forall>f \<in> set (globSync disk). \<not> ignored f
            \<and> (\<exists>stem. f = stem @ ''.ts'' \<and> spec_path f = stem @ ''.spec.ts''))
    \<and> (\<forall>f st st1. \<not> existsSync (fs st) (spec_path f) \<and> loop_body f st = (st1, None) \<longrightarrow>
          map_of (fs st1) (spec_path f)
            = Some (File (''// Auto-created placeholder spec for '' @ f @ [CHR 0x0A]))
          \<and> created st1 = created st + 1)
    \<and> (\<forall>p c. map_of (fs st') p = Some (File c) \<and> map_of disk p \<noteq> Some (File c) \<longrightarrow>
          (\<exists>f \<in> set (globSync disk). p = spec_path f
              \<and> c = ''// Auto-created placeholder spec for '' @ f @ [CHR 0x0A]
              \<and> map_of disk p = None))
    \<and> created st' = card {p. map_of disk p = None \<and> (\<exists>c. map_of (fs st') p = Some (File c))}
    \<and> (\<exists>specs. length specs = created st'
          \<and> console st' = map (\<lambda>spec. ''Created: '' @ spec) specs
               @ (if err = None
                  then [CHR 0x0A # ''Done. Created '' @ decimal (created st')
                          @ '' missing spec files.'']
                  else []))
    \<and> read_decimal (decimal (created st')) = Some (created st')
    \<and> (\<forall>f. ignored f \<longrightarrow> f \<notin> set (globSync disk)
          \<and> (\<forall>p. map_of (fs st') p
                  = Some (File (''// Auto-created placeholder spec for '' @ f @ [CHR 0x0A])) \<longrightarrow>
                map_of disk p
                  = Some (File (''// Auto-created placeholder spec for '' @ f @ [CHR 0x0A]))))
    \<and> (tree_ok disk \<longrightarrow> err = None
          \<and> (\<forall>f \<in> set (globSync disk). map_of disk (spec_path f) = None \<longrightarrow>
                map_of (fs st') (spec_path f)
                  = Some (File (''// Auto-created placeholder spec for '' @ f @ [CHR 0x0A]))))"
proof -
  have "read_decimal (decimal (created st')) = Some (created st')"
    by (rule read_decimal_decimal)
  with run_summary [OF assms] show ?thesis
    unfolding placeholder_def done_line_def new_files_def by blast
qed

theorem placeholder_specs_created_witness:
  "tree_ok project \<and> snd (main project) = None
   \<and> created (fst (main project)) = 1
   \<and> card {p. map_of project p = None
         \<and> (\<exists>c. map_of (fs (fst (main project))) p = Some (File c))} = 1
   \<and> map_of (fs (fst (main project))) ''src/app/homepage/homepage.component.spec.ts''
       = Some (File (''// Auto-created placeholder spec for src/app/homepage/homepage.component.ts''
                      @ [CHR 0x0A]))
   \<and> console (fst (main project))
       = [''Created: src/app/homepage/homepage.component.spec.ts'',
          CHR 0x0A # ''Done. Created 1 missing spec files.'']
   \<and> ignored ''src/main.ts''
   \<and> map_of (fs (fst (main project))) (spec_path ''src/main.ts'') = None"
proof -
  have m: "main project = (fst (main project), snd (main project))" by simp
  have e: "snd (main project) = None" by (simp add: main_project)
  have c: "created (fst (main project)) = 1" by (simp add: main_project)
  have l: "console (fst (main project))
       = [''Created: src/app/homepage/homepage.component.spec.ts'',
          CHR 0x0A # ''Done. Created 1 missing spec files.'']"
    unfolding main_project done_line_1 by simp
  have i: "ignored ''src/main.ts''" by code_simp
  have "map_of (project @ [(''src/app/homepage/homepage.component.spec.ts'',
          File (placeholder ''src/app/homepage/homepage.component.ts''))]) (spec_path ''src/main.ts'') = None"
    by code_simp
  then have n: "map_of (fs (fst (main project))) (spec_path ''src/main.ts'') = None"
    by (simp add: main_project)
  have "map_of (project @ [(''src/app/homepage/homepage.component.spec.ts'',
          File (placeholder ''src/app/homepage/homepage.component.ts''))])
       ''src/app/homepage/homepage.component.spec.ts''
       = Some (File (placeholder ''src/app/homepage/homepage.component.ts''))"
    by code_simp
  then have f: "map_of (fs (fst (main project))) ''src/app/homepage/homepage.component.spec.ts''
       = Some (File (''// Auto-created placeholder spec for src/app/homepage/homepage.component.ts''
                      @ [CHR 0x0A]))"
    by (simp add: main_project placeholder_def)
  from placeholder_specs_created [OF m] have
    "created (fst (main project)) = card {p. map_of project p = None
         \<and> (\<exists>c. map_of (fs (fst (main project))) p = Some (File c))}"
    by blast
  with e c l i n f tree_ok_project show ?thesis by simp
qed

section \<open>Properties of the Deficiency Selector\<close>

lemma file_path_synthesize: "file_path (synthesize p) = p"
  by (simp add: synthesize_def)

lemma line_pct_synthesize: "line_pct (synthesize p) = 0"
  by (simp add: synthesize_def line_pct_def pct_def)

lemma set_absent: "set (absent sources R) = {p. p \<in> set sources \<and> p \<notin> file_path ` set R}"
  by (auto simp: absent_def)

lemma distinct_absent: "distinct (absent sources R)"
  by (simp add: absent_def)

lemma select_candidates: "select sources R T = sort_key rank (candidates sources R T)"
  by (simp add: select_def candidates_def)

lemma set_candidates:
  "set (candidates sources R T) =
     {r \<in> set R. deficient T r} \<union> synthesize ` {p. p \<in> set sources \<and> p \<notin> file_path ` set R}"
  by (auto simp: candidates_def set_absent)

text \<open>
  The first two properties of section 8 of the specification exclude each other whatever
  the selector is: no function can put into its output every file of this report that is
  below the threshold and keep out every file with \<open>lines_total = 0\<close>, since
  \<open>src/empty.ts\<close> is both. The model follows the data model (section 3), which
  excludes the file.
\<close>

lemma no_selector_satisfies_both:
  fixes sel :: "string list \<Rightarrow> CoverageReport \<Rightarrow> rat \<Rightarrow> CoverageRecord list"
  assumes all_below: "\<And>r. r \<in> set report \<Longrightarrow> line_pct r < 90 \<or> branch_pct r < 90 \<Longrightarrow>
      file_path r \<in> set (map file_path (sel source_files report 90))"
    and zero_out: "\<And>r. r \<in> set report \<Longrightarrow> lines_total r = 0 \<Longrightarrow>
      file_path r \<notin> set (map file_path (sel source_files report 90))"
  shows False
proof -
  have m: "empty_rec \<in> set report" by (simp add: report_def)
  have "line_pct empty_rec < 90" by (simp add: empty_rec_def line_pct_def pct_def)
  then have "file_path empty_rec \<in> set (map file_path (sel source_files report 90))"
    using all_below [OF m] by blast
  moreover have "lines_total empty_rec = 0" by (simp add: empty_rec_def)
  then have "file_path empty_rec \<notin> set (map file_path (sel source_files report 90))"
    using zero_out [OF m] by blast
  ultimately show False by blast
qed

text \<open>
  Claim C2. A record of the report with \<open>lines_total = 0\<close> has \<open>line_pct = 0\<close>, which is
  below every positive threshold, and its file is nevertheless not in the selector's
  output, whatever the threshold.
\<close>

theorem zero_total_never_deficient:
  assumes "r \<in> set R" and "distinct (map file_path R)" and "lines_total r = 0"
  shows "line_pct r = 0 \<and> file_path r \<notin> set (map file_path (select sources R T))"
proof -
  have "line_pct r = 0" using assms(3) by (simp add: line_pct_def pct_def)
  moreover have "file_path r \<notin> set (map file_path (select sources R T))"
  proof
    assume "file_path r \<in> set (map file_path (select sources R T))"
    then obtain d where d: "d \<in> set (candidates sources R T)" "file_path d = file_path r"
      by (auto simp: select_candidates)
    from d(1) show False
      unfolding set_candidates
    proof
      assume "d \<in> {r \<in> set R. deficient T r}"
      then have "d \<in> set R" "deficient T d" by simp_all
      moreover have "inj_on file_path (set R)" using assms(2) by (simp add: distinct_map)
      ultimately have "d = r" using d(2) assms(1) by (auto dest: inj_onD)
      then show False using \<open>deficient T d\<close> assms(3) by (simp add: deficient_def)
    next
      assume "d \<in> synthesize ` {p. p \<in> set sources \<and> p \<notin> file_path ` set R}"
      then have "file_path d \<notin> file_path ` set R" by (auto simp: file_path_synthesize)
      then show False using d(2) assms(1) by auto
    qed
  qed
  ultimately show ?thesis by blast
qed

theorem zero_total_never_deficient_witness:
  "empty_rec \<in> set report \<and> lines_total empty_rec = 0 \<and> line_pct empty_rec = 0
   \<and> file_path empty_rec \<notin> set (map file_path (select source_files report 90))"
proof -
  have m: "empty_rec \<in> set report" by (simp add: report_def)
  have d: "distinct (map file_path report)" by code_simp
  have z: "lines_total empty_rec = 0" by (simp add: empty_rec_def)
  from zero_total_never_deficient [OF m d z] m z show ?thesis by simp
qed

end
